theory Spec2Isabelle
  imports Complex_Main
begin

section \<open>The computation core of the Pascal triangle visualiser (src/app.js)\<close>

text \<open>
  The script computes with JavaScript numbers. The properties verified here are the
  ones of exact arithmetic: a number that holds a table value is a rational (\<open>rat\<close>),
  so that the division inside the running product of \<open>combination\<close> is exact, and a
  number that is a row count, a row index or a column index is an integer (\<open>int\<close>).
  Every \<open>for\<close> loop of the source is a recursive function that carries the loop
  variable and the variables the body assigns.
\<close>

subsection \<open>isPrime (lines 338-350)\<close>

text \<open>
  The loop \<open>for (let i = 5; i <= sqrtNum; i += 6)\<close> with \<open>sqrtNum = Math.sqrt(num)\<close>.
  The test \<open>i <= Math.sqrt(num)\<close> is written \<open>i * i \<le> num\<close>; lemma
  \<open>sqrt_test_exact\<close> below shows that the two agree on the non-negative integers
  the loop compares.
\<close>

function isPrime_loop :: "int \<Rightarrow> int \<Rightarrow> bool" where
  "isPrime_loop num i =
     (if i * i \<le> num
      then (if num mod i = 0 \<or> num mod (i + 2) = 0 then False
            else isPrime_loop num (i + 6))
      else True)"
  by pat_completeness auto
termination
proof (relation "measure (\<lambda>(num, i). nat (num + 1 - i))")
  show "wf (measure (\<lambda>(num, i). nat (num + 1 - i)))" by simp
next
  fix num i :: int
  assume le: "i * i \<le> num"
  have "i \<le> i * i"
  proof (cases "1 \<le> i")
    case True
    then have "i * 1 \<le> i * i" by (intro mult_left_mono) simp_all
    then show ?thesis by simp
  next
    case False
    then have "i \<le> 0" by simp
    also have "0 \<le> i * i" by simp
    finally show ?thesis .
  qed
  with le have "i \<le> num" by simp
  then show "((num, i + 6), (num, i)) \<in> measure (\<lambda>(num, i). nat (num + 1 - i))"
    by simp
qed

definition isPrime :: "int \<Rightarrow> bool" where
  "isPrime num =
     (if num \<le> 1 then False
      else if num \<le> 3 then True
      else if num mod 2 = 0 \<or> num mod 3 = 0 then False
      else isPrime_loop num 5)"

text \<open>
  The reference the primality test is compared with: trial division by every integer
  from 2 up to the square root, and nothing at or below 1 is prime.
\<close>

definition trial_division_prime :: "int \<Rightarrow> bool" where
  "trial_division_prime v = (1 < v \<and> (\<forall>d \<in> set [2..v]. d * d \<le> v \<longrightarrow> v mod d \<noteq> 0))"

subsection \<open>combination (lines 358-368)\<close>

function combination_loop :: "int \<Rightarrow> int \<Rightarrow> int \<Rightarrow> rat \<Rightarrow> rat" where
  "combination_loop n k i result =
     (if i \<le> k
      then combination_loop n k (i + 1) (result * of_int (n - i + 1) / of_int i)
      else result)"
  by pat_completeness auto
termination
  by (relation "measure (\<lambda>(n, k, i, result). nat (k + 1 - i))") auto

definition combination :: "int \<Rightarrow> int \<Rightarrow> rat" where
  "combination n k = (if k = 0 \<or> k = n then 1 else combination_loop n k 1 1)"

subsection \<open>generatePascalTriangle (lines 375-387)\<close>

text \<open>
  The inner loop writes \<open>triangle[n][k]\<close> for \<open>k = 0, 1, ...\<close> into an array that
  starts empty, so each write is at the index equal to the current length and extends
  the array by one element; the same holds for \<open>triangle[n] = []\<close> in the outer loop.
\<close>

function generatePascalTriangle_row :: "int \<Rightarrow> int \<Rightarrow> rat list \<Rightarrow> rat list" where
  "generatePascalTriangle_row n k row =
     (if k \<le> n then generatePascalTriangle_row n (k + 1) (row @ [combination n k])
      else row)"
  by pat_completeness auto
termination
  by (relation "measure (\<lambda>(n, k, row). nat (n + 1 - k))") auto

function generatePascalTriangle_loop :: "int \<Rightarrow> int \<Rightarrow> rat list list \<Rightarrow> rat list list" where
  "generatePascalTriangle_loop rows n triangle =
     (if n < rows
      then generatePascalTriangle_loop rows (n + 1)
             (triangle @ [generatePascalTriangle_row n 0 []])
      else triangle)"
  by pat_completeness auto
termination
  by (relation "measure (\<lambda>(rows, n, triangle). nat (rows - n))") auto

definition generatePascalTriangle :: "int \<Rightarrow> rat list list" where
  "generatePascalTriangle rows = generatePascalTriangle_loop rows 0 []"

subsection \<open>showBinomialExpansion (lines 394-424)\<close>

text \<open>
  Each round of the loop computes the three numbers \<open>coeff = combination(row, k)\<close>,
  \<open>aExp = row - k\<close> and \<open>bExp = k\<close> and then appends their LaTeX text to the
  string. The model keeps the numbers of each round, in order, and leaves the text out.
\<close>

function showBinomialExpansion_loop ::
  "int \<Rightarrow> int \<Rightarrow> (rat \<times> int \<times> int) list \<Rightarrow> (rat \<times> int \<times> int) list" where
  "showBinomialExpansion_loop row k terms =
     (if k \<le> row
      then (let coeff = combination row k; aExp = row - k; bExp = k
            in showBinomialExpansion_loop row (k + 1) (terms @ [(coeff, aExp, bExp)]))
      else terms)"
  by pat_completeness auto
termination
  by (relation "measure (\<lambda>(row, k, terms). nat (row + 1 - k))") auto

definition expansionTerms :: "int \<Rightarrow> (rat \<times> int \<times> int) list" where
  "expansionTerms row = showBinomialExpansion_loop row 0 []"

subsection \<open>The rendered cells (render, lines 430-492)\<close>

text \<open>
  \<open>render\<close> creates one element per table entry, in row order and then column order,
  and stores the row index, the column index and the value in its \<open>dataset\<close>. The
  document is the list of these elements in document order; \<open>querySelector\<close> with
  the selector \<open>.pascal-number[data-n='n'][data-k='k']\<close> returns the first element
  that matches, or null.
\<close>

record cell =
  data_n :: int
  data_k :: int
  data_value :: rat

definition render_row :: "int \<Rightarrow> rat list \<Rightarrow> cell list" where
  "render_row n row =
     map (\<lambda>(k, v). \<lparr>data_n = n, data_k = int k, data_value = v\<rparr>) (enumerate 0 row)"

definition render :: "int \<Rightarrow> cell list" where
  "render rows =
     concat (map (\<lambda>(n, row). render_row (int n) row)
               (enumerate 0 (generatePascalTriangle rows)))"

definition querySelector :: "cell list \<Rightarrow> int \<Rightarrow> int \<Rightarrow> cell option" where
  "querySelector doc n k = find (\<lambda>c. data_n c = n \<and> data_k c = k) doc"


subsection \<open>getFibonacciCells (lines 897-1030)\<close>






subsection \<open>getNaturalNumberCells and getTriangularNumberCells (lines 1037-1069)\<close>

text \<open>
  Both loops look up one cell per row and push it when it exists. The style class
  that they add to the cell does not change its \<open>dataset\<close> and is left out.
\<close>

function getNaturalNumberCells_loop ::
  "int \<Rightarrow> cell list \<Rightarrow> int \<Rightarrow> cell list \<Rightarrow> cell list" where
  "getNaturalNumberCells_loop rows doc n cs =
     (if n < rows
      then getNaturalNumberCells_loop rows doc (n + 1)
             (if n \<ge> 1
              then (case querySelector doc n 1 of Some c \<Rightarrow> cs @ [c] | None \<Rightarrow> cs)
              else cs)
      else cs)"
  by pat_completeness auto
termination
  by (relation "measure (\<lambda>(rows, doc, n, cs). nat (rows - n))") auto

definition getNaturalNumberCells :: "int \<Rightarrow> cell list \<Rightarrow> cell list" where
  "getNaturalNumberCells rows doc = getNaturalNumberCells_loop rows doc 0 []"

function getTriangularNumberCells_loop ::
  "int \<Rightarrow> cell list \<Rightarrow> int \<Rightarrow> cell list \<Rightarrow> cell list" where
  "getTriangularNumberCells_loop rows doc n cs =
     (if n < rows
      then getTriangularNumberCells_loop rows doc (n + 1)
             (case querySelector doc n 2 of Some c \<Rightarrow> cs @ [c] | None \<Rightarrow> cs)
      else cs)"
  by pat_completeness auto
termination
  by (relation "measure (\<lambda>(rows, doc, n, cs). nat (rows - n))") auto

definition getTriangularNumberCells :: "int \<Rightarrow> cell list \<Rightarrow> cell list" where
  "getTriangularNumberCells rows doc = getTriangularNumberCells_loop rows doc 2 []"

declare isPrime_loop.simps [simp del]
declare combination_loop.simps [simp del]
declare generatePascalTriangle_row.simps [simp del]
declare generatePascalTriangle_loop.simps [simp del]
declare showBinomialExpansion_loop.simps [simp del]
declare getNaturalNumberCells_loop.simps [simp del]
declare getTriangularNumberCells_loop.simps [simp del]

section \<open>Verification\<close>

subsection \<open>The running product computes the binomial coefficient\<close>

lemma choose_step:
  "of_nat (N choose I) * of_int (int N - int I) / of_int (int I + 1) =
   (of_nat (N choose Suc I) :: rat)"
proof (cases "I \<le> N")
  case True
  have "Suc I * (N choose Suc I) = (N - I) * (N choose I)"
    using binomial_absorption [of I N] binomial_absorb_comp [of N I] by simp
  then have "(of_nat (Suc I * (N choose Suc I)) :: rat) = of_nat ((N - I) * (N choose I))"
    by simp
  then have "(of_nat (Suc I) :: rat) * of_nat (N choose Suc I) =
      of_nat (N - I) * of_nat (N choose I)"
    by (simp only: of_nat_mult)
  moreover have "(of_nat (N - I) :: rat) = of_int (int N - int I)"
    using True by (simp add: of_nat_diff)
  moreover have "(of_nat (Suc I) :: rat) = of_int (int I + 1)"
    by simp
  ultimately have "(of_int (int I + 1) :: rat) * of_nat (N choose Suc I) =
      of_int (int N - int I) * of_nat (N choose I)"
    by (simp only:)
  moreover have "(of_int (int I + 1) :: rat) \<noteq> 0"
    by (simp add: add_nonneg_eq_0_iff)
  ultimately show ?thesis
    by (simp add: field_simps)
next
  case False
  then show ?thesis by (simp add: binomial_eq_0)
qed

lemma combination_loop_binomial:
  "1 \<le> i \<Longrightarrow> i \<le> k + 1 \<Longrightarrow> 0 \<le> n \<Longrightarrow> result = of_nat (nat n choose nat (i - 1)) \<Longrightarrow>
   combination_loop n k i result = of_nat (nat n choose nat k)"
proof (induction n k i result rule: combination_loop.induct)
  case (1 n k i result)
  show ?case
  proof (cases "i \<le> k")
    case True
    have step: "result * of_int (n - i + 1) / of_int i = of_nat (nat n choose nat i)"
    proof -
      have a: "int (nat n) - int (nat (i - 1)) = n - i + 1" using 1 by simp
      have b: "int (nat (i - 1)) + 1 = i" using 1 by simp
      have c: "Suc (nat (i - 1)) = nat i" using 1 by simp
      show ?thesis
        using choose_step [of "nat n" "nat (i - 1)"] 1(5) unfolding a b c by simp
    qed
    have "combination_loop n k (i + 1) (result * of_int (n - i + 1) / of_int i) =
        of_nat (nat n choose nat k)"
      using 1(1) [OF True] True 1(2,4) step by simp
    then show ?thesis
      using True by (subst combination_loop.simps) simp
  next
    case False
    then have "i - 1 = k" using 1 by simp
    then show ?thesis
      using False 1(5) by (subst combination_loop.simps) simp
  qed
qed

lemma combination_binomial:
  assumes "0 \<le> n" "0 \<le> k"
  shows "combination n k = of_nat (nat n choose nat k)"
proof (cases "k = 0 \<or> k = n")
  case True
  then show ?thesis by (auto simp: combination_def)
next
  case False
  then have "combination n k = combination_loop n k 1 1" by (simp add: combination_def)
  also have "\<dots> = of_nat (nat n choose nat k)"
    using assms by (intro combination_loop_binomial) simp_all
  finally show ?thesis .
qed

subsection \<open>The loops of the table and of the expansion as maps\<close>

lemma generatePascalTriangle_row_eq:
  "generatePascalTriangle_row n k row = row @ map (combination n) [k..n]"
proof (induction n k row rule: generatePascalTriangle_row.induct)
  case (1 n k row)
  show ?case
  proof (cases "k \<le> n")
    case True
    then show ?thesis
      using 1 by (subst generatePascalTriangle_row.simps) (simp add: upto_rec1 [of k n])
  next
    case False
    then show ?thesis by (subst generatePascalTriangle_row.simps) simp
  qed
qed

lemma generatePascalTriangle_loop_eq:
  "generatePascalTriangle_loop rows n triangle =
   triangle @ map (\<lambda>r. map (combination r) [0..r]) [n..rows - 1]"
proof (induction rows n triangle rule: generatePascalTriangle_loop.induct)
  case (1 rows n triangle)
  show ?case
  proof (cases "n < rows")
    case True
    then show ?thesis
      using 1 by (subst generatePascalTriangle_loop.simps)
        (simp add: upto_rec1 [of n "rows - 1"] generatePascalTriangle_row_eq)
  next
    case False
    then show ?thesis by (subst generatePascalTriangle_loop.simps) simp
  qed
qed

lemma generatePascalTriangle_eq:
  "generatePascalTriangle rows = map (\<lambda>r. map (combination r) [0..r]) [0..rows - 1]"
  by (simp add: generatePascalTriangle_def generatePascalTriangle_loop_eq)

lemma showBinomialExpansion_loop_eq:
  "showBinomialExpansion_loop row k terms =
   terms @ map (\<lambda>j. (combination row j, row - j, j)) [k..row]"
proof (induction row k terms rule: showBinomialExpansion_loop.induct)
  case (1 row k terms)
  show ?case
  proof (cases "k \<le> row")
    case True
    then show ?thesis
      using 1 by (subst showBinomialExpansion_loop.simps) (simp add: upto_rec1 [of k row])
  next
    case False
    then show ?thesis by (subst showBinomialExpansion_loop.simps) simp
  qed
qed



text \<open>
  Claim C5. For every row count \<open>R\<close> with \<open>0 \<le> R \<le> 30\<close> the table has exactly
  \<open>R\<close> rows, and row \<open>n\<close> (for \<open>0 \<le> n < R\<close>) has exactly \<open>n + 1\<close> entries.
\<close>
theorem table_shape:
  "0 \<le> R \<Longrightarrow> R \<le> 30 \<Longrightarrow>
     length (generatePascalTriangle R) = nat R
     \<and> (\<forall>n. 0 \<le> n \<and> n < R \<longrightarrow> length (generatePascalTriangle R ! nat n) = nat (n + 1))"
  by (simp add: generatePascalTriangle_eq)

text \<open>The theorem of C5 at \<open>R = 5\<close>, read at row 4.\<close>
theorem table_shape_witness:
  "(0::int) \<le> 5 \<and> (5::int) \<le> 30 \<and> length (generatePascalTriangle 5) = 5
   \<and> length (generatePascalTriangle 5 ! 4) = 5"
proof -
  have shape: "length (generatePascalTriangle 5) = nat 5
      \<and> (\<forall>n. 0 \<le> n \<and> n < 5 \<longrightarrow> length (generatePascalTriangle 5 ! nat n) = nat (n + 1))"
    using table_shape [of 5] by simp
  moreover have "0 \<le> (4::int) \<and> (4::int) < 5" by simp
  ultimately have "length (generatePascalTriangle 5 ! nat 4) = nat (4 + 1)" by blast
  with shape show ?thesis by simp
qed







text \<open>
  Claim C9. For every exponent \<open>n \<ge> 0\<close> the terms of the expansion are the \<open>n + 1\<close>
  triples \<open>(combination n k, n - k, k)\<close> for \<open>k = 0, ..., n\<close> in this order; for
  \<open>n = 3\<close> they are \<open>(1,3,0), (3,2,1), (3,1,2), (1,0,3)\<close>.
\<close>
theorem expansion_terms:
  "0 \<le> n \<Longrightarrow>
     expansionTerms n = map (\<lambda>k. (combination n k, n - k, k)) [0..n]
     \<and> length (expansionTerms n) = nat (n + 1)
     \<and> expansionTerms 3 = [(1, 3, 0), (3, 2, 1), (3, 1, 2), (1, 0, 3)]"
proof (intro conjI)
  show "expansionTerms n = map (\<lambda>k. (combination n k, n - k, k)) [0..n]"
    by (simp add: expansionTerms_def showBinomialExpansion_loop_eq)
  then show "length (expansionTerms n) = nat (n + 1)" by simp
  show "expansionTerms 3 = [(1, 3, 0), (3, 2, 1), (3, 1, 2), (1, 0, 3)]" by code_simp
qed

text \<open>The theorem of C9 at \<open>n = 2\<close>.\<close>
theorem expansion_terms_witness:
  "(0::int) \<le> 2 \<and> expansionTerms 2 = [(1, 2, 0), (2, 1, 1), (1, 0, 2)]
   \<and> length (expansionTerms 2) = 3"
proof -
  have "map (\<lambda>k. (combination 2 k, 2 - k, k)) [0..2] = [(1, 2, 0), (2, 1, 1), (1, 0, 2)]"
    by code_simp
  then show ?thesis
    using expansion_terms [of 2] by simp
qed

subsection \<open>What querySelector finds in the rendered table\<close>

lemma render_row_eq:
  "render_row n row =
   map (\<lambda>j. \<lparr>data_n = n, data_k = int j, data_value = row ! j\<rparr>) [0..<length row]"
  by (rule nth_equalityI) (simp_all add: render_row_def nth_enumerate_eq)

lemma render_row_combination:
  "render_row (int i) (map (combination (int i)) [0..int i]) =
        map (\<lambda>j. \<lparr>data_n = int i, data_k = int j,
                    data_value = combination (int i) (int j)\<rparr>) [0..<Suc i]"
proof -
  have len: "length (map (combination (int i)) [0..int i]) = Suc i" by simp
  have "map (combination (int i)) [0..int i] ! j = combination (int i) (int j)" if "j < Suc i" for j
    using that by simp
  then show ?thesis
    unfolding render_row_eq len by (simp del: upt_Suc)
qed


lemma render_eq:
  "render rows =
   concat (map (\<lambda>i. map (\<lambda>j. \<lparr>data_n = int i, data_k = int j,
                                data_value = combination (int i) (int j)\<rparr>) [0..<Suc i])
             [0..<nat rows])"
proof -
  have "map (\<lambda>(n, row). render_row (int n) row) (enumerate 0 (generatePascalTriangle rows)) =
      map (\<lambda>i. map (\<lambda>j. \<lparr>data_n = int i, data_k = int j,
                              data_value = combination (int i) (int j)\<rparr>) [0..<Suc i])
        [0..<nat rows]"
  proof (rule nth_equalityI)
    show "length (map (\<lambda>(n, row). render_row (int n) row)
              (enumerate 0 (generatePascalTriangle rows))) =
          length (map (\<lambda>i. map (\<lambda>j. \<lparr>data_n = int i, data_k = int j,
                              data_value = combination (int i) (int j)\<rparr>) [0..<Suc i])
                    [0..<nat rows])"
      by (simp add: generatePascalTriangle_eq)
  next
    fix i
    assume "i < length (map (\<lambda>(n, row). render_row (int n) row)
                (enumerate 0 (generatePascalTriangle rows)))"
    then have i: "i < nat rows"
      by (simp add: generatePascalTriangle_eq)
    then have row: "generatePascalTriangle rows ! i = map (combination (int i)) [0..int i]"
      by (simp add: generatePascalTriangle_eq)
    have "map (\<lambda>(n, row). render_row (int n) row)
            (enumerate 0 (generatePascalTriangle rows)) ! i =
          render_row (int i) (generatePascalTriangle rows ! i)"
      using i by (simp add: nth_enumerate_eq generatePascalTriangle_eq del: upt_Suc)
    also have "\<dots> = map (\<lambda>j. \<lparr>data_n = int i, data_k = int j,
                    data_value = combination (int i) (int j)\<rparr>) [0..<Suc i]"
      by (simp only: row render_row_combination)
    also have "\<dots> = map (\<lambda>i. map (\<lambda>j. \<lparr>data_n = int i, data_k = int j,
                              data_value = combination (int i) (int j)\<rparr>) [0..<Suc i])
            [0..<nat rows] ! i"
      using i by (simp del: upt_Suc)
    finally show "map (\<lambda>(n, row). render_row (int n) row)
            (enumerate 0 (generatePascalTriangle rows)) ! i =
          map (\<lambda>i. map (\<lambda>j. \<lparr>data_n = int i, data_k = int j,
                              data_value = combination (int i) (int j)\<rparr>) [0..<Suc i])
            [0..<nat rows] ! i" .
  qed
  then show ?thesis by (simp only: render_def)
qed

lemma in_concat_map_upt:
  "c \<in> set (concat (map (\<lambda>i. map (g i) [0..<h i]) [0..<m])) \<longleftrightarrow>
   (\<exists>i j. i < m \<and> j < h i \<and> c = g i j)"
proof -
  have "c \<in> set (concat (map (\<lambda>i. map (g i) [0..<h i]) [0..<m])) \<longleftrightarrow>
      (\<exists>i \<in> {0..<m}. c \<in> g i ` {0..<h i})"
    by (simp only: set_concat set_map set_upt UN_iff image_image)
  also have "\<dots> \<longleftrightarrow> (\<exists>i j. i < m \<and> j < h i \<and> c = g i j)"
    by (simp only: Bex_def image_iff atLeastLessThan_iff le0 simp_thms) blast
  finally show ?thesis .
qed

lemma in_render_iff:
  "c \<in> set (render rows) \<longleftrightarrow>
   (\<exists>i j. i < nat rows \<and> j \<le> i \<and>
      c = \<lparr>data_n = int i, data_k = int j, data_value = combination (int i) (int j)\<rparr>)"
  using in_concat_map_upt [of c "\<lambda>i j. \<lparr>data_n = int i, data_k = int j,
      data_value = combination (int i) (int j)\<rparr>" Suc "nat rows"]
  unfolding render_eq less_Suc_eq_le .

lemma find_the_only_match:
  "c \<in> set xs \<Longrightarrow> P c \<Longrightarrow> (\<And>d. d \<in> set xs \<Longrightarrow> P d \<Longrightarrow> d = c) \<Longrightarrow> find P xs = Some c"
proof (induction xs)
  case Nil
  then show ?case by simp
next
  case (Cons x xs)
  show ?case
  proof (cases "P x")
    case True
    then have "x = c" using Cons.prems(3) by simp
    with True show ?thesis by simp
  next
    case False
    then have "c \<in> set xs" using Cons.prems(1,2) by auto
    then have "find P xs = Some c"
      using Cons.prems(2,3) by (intro Cons.IH) simp_all
    with False show ?thesis by simp
  qed
qed

lemma querySelector_render_Some:
  assumes "0 \<le> k" "k \<le> n" "n < rows"
  shows "querySelector (render rows) n k =
    Some \<lparr>data_n = n, data_k = k, data_value = combination n k\<rparr>"
  unfolding querySelector_def
proof (rule find_the_only_match)
  have n: "int (nat n) = n" and k: "int (nat k) = k"
    using assms by simp_all
  have "nat n < nat rows" "nat k \<le> nat n"
    using assms by simp_all
  then have "nat n < nat rows \<and> nat k \<le> nat n \<and>
      \<lparr>data_n = n, data_k = k, data_value = combination n k\<rparr> =
      \<lparr>data_n = int (nat n), data_k = int (nat k),
         data_value = combination (int (nat n)) (int (nat k))\<rparr>"
    by (simp only: n k simp_thms)
  then show "\<lparr>data_n = n, data_k = k, data_value = combination n k\<rparr> \<in> set (render rows)"
    unfolding in_render_iff by (intro exI)
next
  show "data_n \<lparr>data_n = n, data_k = k, data_value = combination n k\<rparr> = n \<and>
        data_k \<lparr>data_n = n, data_k = k, data_value = combination n k\<rparr> = k"
    by simp
next
  fix d
  assume "d \<in> set (render rows)" and d: "data_n d = n \<and> data_k d = k"
  then obtain i j where
    "d = \<lparr>data_n = int i, data_k = int j, data_value = combination (int i) (int j)\<rparr>"
    unfolding in_render_iff by (elim exE conjE)
  with d show "d = \<lparr>data_n = n, data_k = k, data_value = combination n k\<rparr>"
    by simp
qed


subsection \<open>The fixed-column families\<close>

lemma getNaturalNumberCells_loop_render:
  "0 \<le> n \<Longrightarrow>
   getNaturalNumberCells_loop rows (render rows) n cs =
   cs @ map (\<lambda>r. \<lparr>data_n = r, data_k = 1, data_value = combination r 1\<rparr>) [max 1 n..rows - 1]"
proof (induction rows "render rows" n cs rule: getNaturalNumberCells_loop.induct)
  case (1 rows n cs)
  show ?case
  proof (cases "n < rows")
    case True
    show ?thesis
    proof (cases "1 \<le> n")
      case n1: True
      then have "querySelector (render rows) n 1 =
          Some \<lparr>data_n = n, data_k = 1, data_value = combination n 1\<rparr>"
        using True by (intro querySelector_render_Some) simp_all
      then show ?thesis
        using True n1 1
        by (subst getNaturalNumberCells_loop.simps) (simp add: upto_rec1 [of n "rows - 1"] max_def)
    next
      case False
      then have "n = 0" using 1(2) by simp
      then show ?thesis
        using True 1 by (subst getNaturalNumberCells_loop.simps) (simp add: max_def)
    qed
  next
    case False
    then show ?thesis
      using 1(2) by (subst getNaturalNumberCells_loop.simps) (simp add: max_def)
  qed
qed

lemma combination_1: "1 \<le> n \<Longrightarrow> combination n 1 = of_int n"
  by (simp add: combination_binomial)

lemma getTriangularNumberCells_loop_render:
  "2 \<le> n \<Longrightarrow>
   getTriangularNumberCells_loop rows (render rows) n cs =
   cs @ map (\<lambda>r. \<lparr>data_n = r, data_k = 2, data_value = combination r 2\<rparr>) [n..rows - 1]"
proof (induction rows "render rows" n cs rule: getTriangularNumberCells_loop.induct)
  case (1 rows n cs)
  show ?case
  proof (cases "n < rows")
    case True
    then have "querySelector (render rows) n 2 =
        Some \<lparr>data_n = n, data_k = 2, data_value = combination n 2\<rparr>"
      using 1(2) by (intro querySelector_render_Some) simp_all
    then show ?thesis
      using True 1
      by (subst getTriangularNumberCells_loop.simps) (simp add: upto_rec1 [of n "rows - 1"])
  next
    case False
    then show ?thesis
      by (subst getTriangularNumberCells_loop.simps) simp
  qed
qed

lemma combination_2: "2 \<le> n \<Longrightarrow> combination n 2 = of_int (n * (n - 1)) / 2"
proof -
  assume n: "2 \<le> n"
  have "2 * (nat n choose 2) = nat n * (nat n - 1)"
    using binomial_absorption [of 1 "nat n"] by (simp add: numeral_2_eq_2)
  then have "(of_nat (2 * (nat n choose 2)) :: rat) = of_nat (nat n * (nat n - 1))"
    by (simp only:)
  moreover have "(of_nat (nat n * (nat n - 1)) :: rat) = of_int (n * (n - 1))"
    using n by (simp add: of_nat_diff)
  ultimately have "2 * (of_nat (nat n choose 2) :: rat) = of_int (n * (n - 1))"
    by simp
  then have "(of_nat (nat n choose 2) :: rat) = of_int (n * (n - 1)) / 2"
    by simp
  moreover have "nat 2 = (2::nat)" by simp
  ultimately show ?thesis
    using n combination_binomial [of n 2] by simp
qed

text \<open>
  Claim C8. For every row count \<open>R \<ge> 2\<close> the natural-number family taken from the
  rendered table of \<open>R\<close> rows is exactly the cells of column 1 in rows
  \<open>1, ..., R - 1\<close>, in increasing row order, and the cell of row \<open>n\<close> holds the value
  \<open>n\<close>, so the values are \<open>1, 2, ..., R - 1\<close>; for \<open>R < 2\<close> the family is empty.
\<close>
theorem natural_family:
  "(2 \<le> R \<longrightarrow>
      getNaturalNumberCells R (render R) =
        map (\<lambda>n. \<lparr>data_n = n, data_k = 1, data_value = of_int n\<rparr>) [1..R - 1]
      \<and> map data_value (getNaturalNumberCells R (render R)) = map of_int [1..R - 1])
   \<and> (R < 2 \<longrightarrow> getNaturalNumberCells R (render R) = [])"
proof -
  have "getNaturalNumberCells R (render R) =
      map (\<lambda>n. \<lparr>data_n = n, data_k = 1, data_value = combination n 1\<rparr>) [1..R - 1]"
    by (simp add: getNaturalNumberCells_def getNaturalNumberCells_loop_render)
  also have "\<dots> = map (\<lambda>n. \<lparr>data_n = n, data_k = 1, data_value = of_int n\<rparr>) [1..R - 1]"
    by (rule map_cong) (simp_all add: combination_1)
  finally have eq: "getNaturalNumberCells R (render R) =
      map (\<lambda>n. \<lparr>data_n = n, data_k = 1, data_value = of_int n\<rparr>) [1..R - 1]" .
  have "map data_value (getNaturalNumberCells R (render R)) = map of_int [1..R - 1]"
    by (simp add: eq comp_def)
  with eq show ?thesis by simp
qed

text \<open>The theorem of C8 at \<open>R = 4\<close> and at \<open>R = 1\<close>.\<close>
theorem natural_family_witness:
  "(2::int) \<le> 4 \<and> map data_value (getNaturalNumberCells 4 (render 4)) = [1, 2, 3]
   \<and> (1::int) < 2 \<and> getNaturalNumberCells 1 (render 1) = []"
proof -
  have "(2::int) \<le> 4" by simp
  with natural_family [of 4]
  have "map data_value (getNaturalNumberCells 4 (render 4)) = map of_int [1..4 - 1]"
    by blast
  moreover have "map rat_of_int [1..4 - 1] = [1, 2, 3]" by code_simp
  ultimately have "map data_value (getNaturalNumberCells 4 (render 4)) = [1, 2, 3]"
    by (simp only:)
  moreover have "(1::int) < 2" by simp
  with natural_family [of 1] have "getNaturalNumberCells 1 (render 1) = []"
    by blast
  ultimately show ?thesis by simp
qed

text \<open>
  Claim C3 says that the cell of the triangular-number family in row \<open>n\<close> holds
  \<open>n (n + 1) / 2\<close>. With 3 rows the family is the single cell of row 2, and it
  holds 1, not \<open>2 (2 + 1) / 2 = 3\<close>.
\<close>
theorem triangular_family_claimed_value_counterexample:
  "getTriangularNumberCells 3 (render 3) = [\<lparr>data_n = 2, data_k = 2, data_value = 1\<rparr>]
   \<and> (1::rat) \<noteq> of_int (2 * (2 + 1)) / 2"
proof
  show "getTriangularNumberCells 3 (render 3) = [\<lparr>data_n = 2, data_k = 2, data_value = 1\<rparr>]"
    by code_simp
  show "(1::rat) \<noteq> of_int (2 * (2 + 1)) / 2" by simp
qed

text \<open>
  Claim C3, amended. For every row count \<open>R \<ge> 3\<close> the triangular-number family is
  the cells of column 2 in rows \<open>2, ..., R - 1\<close>, in increasing row order, and the
  cell of row \<open>n\<close> holds \<open>n (n - 1) / 2\<close>, which is the triangular number of index
  \<open>n - 1\<close> (the information panel of the script writes it \<open>T(n) = C(n+1, 2)\<close>).
\<close>
theorem triangular_family:
  "3 \<le> R \<Longrightarrow>
     getTriangularNumberCells R (render R) =
       map (\<lambda>n. \<lparr>data_n = n, data_k = 2, data_value = of_int (n * (n - 1)) / 2\<rparr>) [2..R - 1]"
proof -
  have "getTriangularNumberCells R (render R) =
      map (\<lambda>n. \<lparr>data_n = n, data_k = 2, data_value = combination n 2\<rparr>) [2..R - 1]"
    by (simp add: getTriangularNumberCells_def getTriangularNumberCells_loop_render)
  also have "\<dots> = map (\<lambda>n. \<lparr>data_n = n, data_k = 2, data_value = of_int (n * (n - 1)) / 2\<rparr>) [2..R - 1]"
    by (rule map_cong) (simp_all add: combination_2)
  finally show ?thesis .
qed

text \<open>The amended theorem of C3 at \<open>R = 5\<close>.\<close>
theorem triangular_family_witness:
  "(3::int) \<le> 5 \<and> getTriangularNumberCells 5 (render 5) =
     [\<lparr>data_n = 2, data_k = 2, data_value = 1\<rparr>,
      \<lparr>data_n = 3, data_k = 2, data_value = 3\<rparr>,
      \<lparr>data_n = 4, data_k = 2, data_value = 6\<rparr>]"
proof -
  have "map (\<lambda>n. \<lparr>data_n = n, data_k = 2, data_value = rat_of_int (n * (n - 1)) / 2\<rparr>) [2..5 - 1] =
     [\<lparr>data_n = 2, data_k = 2, data_value = 1\<rparr>,
      \<lparr>data_n = 3, data_k = 2, data_value = 3\<rparr>,
      \<lparr>data_n = 4, data_k = 2, data_value = 6\<rparr>]"
    by code_simp
  then show ?thesis
    using triangular_family [of 5] by simp
qed

subsection \<open>The primality test against trial division\<close>

lemma sqrt_test_exact:
  "0 \<le> i \<Longrightarrow> 0 \<le> num \<Longrightarrow> (real_of_int i \<le> sqrt (real_of_int num)) = (i * i \<le> num)"
proof -
  assume i: "0 \<le> i" and num: "0 \<le> num"
  have "real_of_int i = sqrt ((real_of_int i)\<^sup>2)"
    using i by simp
  then have "(real_of_int i \<le> sqrt (real_of_int num)) =
      (sqrt ((real_of_int i)\<^sup>2) \<le> sqrt (real_of_int num))"
    by simp
  also have "\<dots> = ((real_of_int i)\<^sup>2 \<le> real_of_int num)"
    by (rule real_sqrt_le_iff)
  also have "\<dots> = (real_of_int (i * i) \<le> real_of_int num)"
    by (simp add: power2_eq_square)
  also have "\<dots> = (i * i \<le> num)"
    by (simp only: of_int_le_iff)
  finally show ?thesis .
qed

lemma isPrime_loop_True_no_divisor:
  "isPrime_loop num i \<Longrightarrow> i mod 6 = 5 \<Longrightarrow> 0 < i \<Longrightarrow> i \<le> d \<Longrightarrow> d * d \<le> num \<Longrightarrow>
   d mod 6 = 1 \<or> d mod 6 = 5 \<Longrightarrow> num mod d \<noteq> 0"
proof (induction num i rule: isPrime_loop.induct)
  case (1 num i)
  have "i * i \<le> d * d"
    using 1(4,5) by (intro mult_mono) simp_all
  then have sq: "i * i \<le> num" using 1(6) by simp
  from 1(2) sq have nodiv: "num mod i \<noteq> 0" "num mod (i + 2) \<noteq> 0"
    and rest: "isPrime_loop num (i + 6)"
    by (subst (asm) isPrime_loop.simps, simp split: if_splits)+
  have "d = i \<or> d = i + 2 \<or> i + 6 \<le> d"
    using 1(3,5,7) by presburger
  then consider "d = i" | "d = i + 2" | "i + 6 \<le> d"
    by blast
  then show ?case
  proof cases
    case 1
    then show ?thesis using nodiv by simp
  next
    case 2
    then show ?thesis using nodiv by simp
  next
    case 3
    have "(i + 6) mod 6 = 5" using 1(3) by presburger
    then show ?thesis
      using 1(1) [OF sq _ rest _ _ 3 1(6,7)] nodiv 1(4) by simp
  qed
qed

lemma isPrime_loop_False_divisor:
  "\<not> isPrime_loop num i \<Longrightarrow> 5 \<le> i \<Longrightarrow> \<exists>d. 2 \<le> d \<and> d * d \<le> num \<and> num mod d = 0"
proof (induction num i rule: isPrime_loop.induct)
  case (1 num i)
  from 1(2) have sq: "i * i \<le> num"
    by (subst (asm) isPrime_loop.simps) (simp split: if_splits)
  show ?case
  proof (cases "num mod i = 0")
    case True
    then show ?thesis using sq 1(3) by (intro exI [of _ i]) simp
  next
    case ni: False
    show ?thesis
    proof (cases "num mod (i + 2) = 0")
      case True
      show ?thesis
      proof (cases "(i + 2) * (i + 2) \<le> num")
        case True
        then show ?thesis
          using \<open>num mod (i + 2) = 0\<close> 1(3) by (intro exI [of _ "i + 2"]) simp
      next
        case False
        define q where "q = num div (i + 2)"
        have num: "num = q * (i + 2)"
          using True by (simp add: q_def mod_eq_0_iff_dvd)
        have ipos: "0 < i + 2" using 1(3) by simp
        have "i + 2 < i * i"
        proof -
          have "i * 5 \<le> i * i" using 1(3) by (intro mult_left_mono) simp_all
          moreover have "i + 2 < i * 5" using 1(3) by simp
          ultimately show ?thesis by linarith
        qed
        then have big: "i + 2 < num" using sq by simp
        have q2: "2 \<le> q"
        proof (rule ccontr)
          assume "\<not> 2 \<le> q"
          then have "q \<le> 1" by simp
          then have "q * (i + 2) \<le> 1 * (i + 2)"
            using ipos by (intro mult_right_mono) simp_all
          then show False using num big by simp
        qed
        have qlt: "q < i + 2"
        proof (rule ccontr)
          assume "\<not> q < i + 2"
          then have "i + 2 \<le> q" by simp
          then have "(i + 2) * (i + 2) \<le> q * (i + 2)"
            using ipos by (intro mult_right_mono) simp_all
          then show False using num False by simp
        qed
        have "q * q \<le> q * (i + 2)"
          using qlt q2 by (intro mult_left_mono) simp_all
        then have "q * q \<le> num" using num by simp
        moreover have "num mod q = 0" by (subst num) simp
        ultimately show ?thesis using q2 by (intro exI [of _ q]) simp
      qed
    next
      case False
      then have "\<not> isPrime_loop num (i + 6)"
        using 1(2) ni sq by (subst (asm) isPrime_loop.simps) simp
      then show ?thesis
        using 1(1) [OF sq _ ] ni False 1(3) by simp
    qed
  qed
qed

lemma self_le_square: "(d::int) \<le> d * d"
proof (cases "1 \<le> d")
  case True
  then have "d * 1 \<le> d * d" by (intro mult_left_mono) simp_all
  then show ?thesis by simp
next
  case False
  then have "d \<le> 0" by simp
  also have "0 \<le> d * d" by simp
  finally show ?thesis .
qed

lemma trial_division_prime_iff:
  "trial_division_prime v \<longleftrightarrow> 1 < v \<and> (\<forall>d. 2 \<le> d \<and> d * d \<le> v \<longrightarrow> v mod d \<noteq> 0)"
proof -
  have "(\<forall>d \<in> set [2..v]. d * d \<le> v \<longrightarrow> v mod d \<noteq> 0) \<longleftrightarrow>
      (\<forall>d. 2 \<le> d \<and> d * d \<le> v \<longrightarrow> v mod d \<noteq> 0)"
  proof (intro iffI allI impI ballI)
    fix d
    assume all: "\<forall>d \<in> set [2..v]. d * d \<le> v \<longrightarrow> v mod d \<noteq> 0"
      and d: "2 \<le> d \<and> d * d \<le> v"
    have "d \<le> d * d" by (rule self_le_square)
    with d have "d \<le> v" by linarith
    with d have "d \<in> set [2..v]" by simp
    with all have "d * d \<le> v \<longrightarrow> v mod d \<noteq> 0" by (rule bspec)
    with d show "v mod d \<noteq> 0" by simp
  next
    fix d
    assume all: "\<forall>d. 2 \<le> d \<and> d * d \<le> v \<longrightarrow> v mod d \<noteq> 0"
      and d: "d \<in> set [2..v]" "d * d \<le> v"
    from all have "2 \<le> d \<and> d * d \<le> v \<longrightarrow> v mod d \<noteq> 0" by (rule spec)
    with d show "v mod d \<noteq> 0" by simp
  qed
  then show ?thesis
    by (simp only: trial_division_prime_def)
qed

lemma not_trial_division_primeI:
  "2 \<le> d \<Longrightarrow> d * d \<le> v \<Longrightarrow> v mod d = 0 \<Longrightarrow> \<not> trial_division_prime v"
proof
  assume d: "2 \<le> d" "d * d \<le> v" "v mod d = 0" and "trial_division_prime v"
  then have "\<forall>d. 2 \<le> d \<and> d * d \<le> v \<longrightarrow> v mod d \<noteq> 0"
    by (simp only: trial_division_prime_iff)
  then have "2 \<le> d \<and> d * d \<le> v \<longrightarrow> v mod d \<noteq> 0" by (rule spec)
  with d show False by simp
qed

lemma trial_division_primeI:
  assumes "1 < v" and nodiv: "\<And>d. 2 \<le> d \<Longrightarrow> d * d \<le> v \<Longrightarrow> v mod d \<noteq> 0"
  shows "trial_division_prime v"
  unfolding trial_division_prime_iff
proof (intro conjI allI impI)
  show "1 < v" by (rule assms(1))
next
  fix d
  assume "2 \<le> d \<and> d * d \<le> v"
  then have "2 \<le> d" "d * d \<le> v" by simp_all
  then show "v mod d \<noteq> 0" by (rule nodiv)
qed

lemma isPrime_trial_division: "isPrime v = trial_division_prime v"
proof -
  consider "v \<le> 1" | "v = 2 \<or> v = 3" | "3 < v" "v mod 2 = 0"
    | "3 < v" "v mod 2 \<noteq> 0" "v mod 3 = 0" | "3 < v" "v mod 2 \<noteq> 0" "v mod 3 \<noteq> 0"
    by linarith
  then show ?thesis
  proof cases
    case 1
    then have "\<not> trial_division_prime v" by (simp only: trial_division_prime_iff) simp
    then show ?thesis using 1 by (simp add: isPrime_def)
  next
    case 2
    have "v mod d \<noteq> 0" if "2 \<le> d" "d * d \<le> v" for d
    proof -
      have "2 * 2 \<le> d * d" using that by (intro mult_mono) simp_all
      with that 2 have False by linarith
      then show ?thesis ..
    qed
    moreover have "1 < v" using 2 by linarith
    ultimately have "trial_division_prime v" by (intro trial_division_primeI)
    moreover have "isPrime v" using 2 by (auto simp: isPrime_def)
    ultimately show ?thesis by simp
  next
    case 3
    then have "\<not> trial_division_prime v"
      by (intro not_trial_division_primeI [of 2]) simp_all
    then show ?thesis using 3 by (simp add: isPrime_def)
  next
    case 4
    then have "9 \<le> v" by presburger
    then have "\<not> trial_division_prime v"
      using 4 by (intro not_trial_division_primeI [of 3]) simp_all
    then show ?thesis using 4 by (simp add: isPrime_def)
  next
    case 5
    then have eq: "isPrime v = isPrime_loop v 5" by (simp add: isPrime_def)
    show ?thesis
    proof (cases "isPrime_loop v 5")
      case True
      have "v mod d \<noteq> 0" if d: "2 \<le> d" "d * d \<le> v" for d
      proof
        assume zero: "v mod d = 0"
        then have dv: "d dvd v" by (simp add: mod_eq_0_iff_dvd)
        have "\<not> 2 dvd d"
        proof
          assume "2 dvd d"
          then have "2 dvd v" using dv by (rule dvd_trans)
          then show False using 5(2) by presburger
        qed
        moreover have "\<not> 3 dvd d"
        proof
          assume "3 dvd d"
          then have "3 dvd v" using dv by (rule dvd_trans)
          then show False using 5(3) by presburger
        qed
        ultimately have "(d mod 6 = 1 \<or> d mod 6 = 5) \<and> 5 \<le> d"
          using d(1) by presburger
        then have "v mod d \<noteq> 0"
          using isPrime_loop_True_no_divisor [OF True, of d] d(2) by simp
        then show False using zero by simp
      qed
      moreover have "1 < v" using 5(1) by simp
      ultimately have "trial_division_prime v" by (intro trial_division_primeI)
      then show ?thesis using eq True by simp
    next
      case False
      then have "\<exists>d. 2 \<le> d \<and> d * d \<le> v \<and> v mod d = 0"
        by (intro isPrime_loop_False_divisor [of v 5]) simp_all
      then obtain d where "2 \<le> d" "d * d \<le> v" "v mod d = 0"
        by (elim exE conjE)
      then have "\<not> trial_division_prime v"
        by (rule not_trial_division_primeI)
      then show ?thesis using eq False by simp
    qed
  qed
qed

lemma trial_division_prime_no_proper_divisor:
  "trial_division_prime v \<longleftrightarrow> 1 < v \<and> (\<forall>d. 1 < d \<and> d < v \<longrightarrow> \<not> d dvd v)"
proof (intro iffI conjI allI impI)
  assume "trial_division_prime v"
  then show "1 < v" by (simp only: trial_division_prime_def)
next
  fix d
  assume tp: "trial_division_prime v" and d: "1 < d \<and> d < v"
  show "\<not> d dvd v"
  proof
    assume dv: "d dvd v"
    then obtain q where v: "v = d * q" by (auto simp: dvd_def)
    have qpos: "0 < q"
    proof (rule ccontr)
      assume "\<not> 0 < q"
      then have "d * q \<le> d * 0" using d by (intro mult_left_mono) simp_all
      then show False using v d by simp
    qed
    have q2: "2 \<le> q"
    proof (rule ccontr)
      assume "\<not> 2 \<le> q"
      then have "q = 1" using qpos by simp
      then show False using v d by simp
    qed
    show False
    proof (cases "d \<le> q")
      case True
      then have "d * d \<le> d * q" using d by (intro mult_left_mono) simp_all
      then have "d * d \<le> v" using v by simp
      moreover have "v mod d = 0" using dv by (simp add: mod_eq_0_iff_dvd)
      moreover have "2 \<le> d" using d by simp
      ultimately have "\<not> trial_division_prime v"
        by (intro not_trial_division_primeI [of d])
      with tp show False by simp
    next
      case False
      then have "q * q \<le> d * q" using qpos by (intro mult_right_mono) simp_all
      then have "q * q \<le> v" using v by simp
      moreover have "v mod q = 0" by (simp add: v)
      ultimately have "\<not> trial_division_prime v"
        using q2 by (intro not_trial_division_primeI [of q])
      with tp show False by simp
    qed
  qed
next
  assume a: "1 < v \<and> (\<forall>d. 1 < d \<and> d < v \<longrightarrow> \<not> d dvd v)"
  have "v mod d \<noteq> 0" if d: "2 \<le> d" "d * d \<le> v" for d
  proof -
    have "d * 2 \<le> d * d" using d by (intro mult_left_mono) simp_all
    with d have "d < v" by linarith
    moreover from a have "1 < d \<and> d < v \<longrightarrow> \<not> d dvd v" by (elim conjE allE [of _ d])
    ultimately have "\<not> d dvd v" using d by simp
    then show ?thesis by (simp add: mod_eq_0_iff_dvd)
  qed
  moreover have "1 < v" using a by (elim conjE)
  ultimately show "trial_division_prime v"
    by (intro trial_division_primeI)
qed

text \<open>
  Claim C4. For every integer \<open>v \<ge> 0\<close>, and so for every \<open>v\<close> from 0 to 1000,
  \<open>isPrime v\<close> (false up to 1, true for 2 and 3, false for the multiples of 2 and 3,
  otherwise trial division by the numbers \<open>6k - 1\<close> and \<open>6k + 1\<close> up to the square
  root) gives the answer of the reference, trial division by every integer from 2 up to
  the square root.
\<close>
theorem isPrime_matches_trial_division:
  "0 \<le> v \<Longrightarrow> isPrime v = trial_division_prime v"
  by (rule isPrime_trial_division)

text \<open>The theorem of C4 at the prime 97 and at \<open>91 = 7 * 13\<close>.\<close>
theorem isPrime_matches_trial_division_witness:
  "(0::int) \<le> 97 \<and> isPrime 97 \<and> trial_division_prime 97
   \<and> (0::int) \<le> 91 \<and> \<not> isPrime 91 \<and> \<not> trial_division_prime 91"
proof -
  have "isPrime 97" "\<not> isPrime 91" by code_simp+
  then show ?thesis
    using isPrime_matches_trial_division [of 97] isPrime_matches_trial_division [of 91]
    by simp
qed

subsection \<open>The sums along the diagonals\<close>













end
